theory Spec2Isabelle
  imports Main "HOL-Library.Sublist"
begin

section \<open>JavaScript values used by the pagination code\<close>

text \<open>
  Strings that are inspected character by character (page tokens) are sequences of UTF-16
  code units, written as natural numbers; \<open>js\<close> turns an ASCII literal into such a
  sequence. Resource-type names are only ever compared for equality and are kept as
  plain strings.

  Every number the code computes with is an integer (array lengths, indices, integral page
  sizes) and is modelled as \<open>int\<close>. JavaScript numbers are doubles, which represent
  integers exactly below \<open>2^53\<close>; array lengths are below \<open>2^32\<close>. A page size
  that is a number but not an integer (a fraction, NaN, an infinity) is the separate
  value \<open>NonIntegral\<close>: \<open>validatePageSize\<close> only asks whether the number is an
  integer. The generic \<open>paginate\<close> does arithmetic on the page size it is given, so
  its options carry an integral page size (of either sign); fractional page sizes of
  \<open>paginate\<close> are not covered. Integer arithmetic and the decimal rendering agree with
  the code's doubles and \<open>String\<close> as long as the values stay within \<open>2^53\<close> in
  magnitude; the only value of \<open>paginate\<close> that can leave this range is
  \<open>startIndex - pageSize\<close> of the previous token, for a negative page size of
  magnitude near \<open>2^53\<close> or more.
\<close>

type_synonym js_string = "nat list"

definition js :: "string \<Rightarrow> js_string" where
  "js s = map of_char s"

datatype number = Integral int | NonIntegral

text \<open>
  White space and line terminators stripped by \<open>parseInt\<close>: TAB, LF, VT, FF, CR, SP,
  NBSP, U+1680, U+2000..U+200A, U+2028, U+2029, U+202F, U+205F, U+3000, U+FEFF.
\<close>

definition isStrWhiteSpaceChar :: "nat \<Rightarrow> bool" where
  "isStrWhiteSpaceChar c =
     (c = 9 \<or> c = 10 \<or> c = 11 \<or> c = 12 \<or> c = 13 \<or> c = 32 \<or> c = 160 \<or> c = 5760 \<or>
      (8192 \<le> c \<and> c \<le> 8202) \<or> c = 8232 \<or> c = 8233 \<or> c = 8239 \<or> c = 8287 \<or>
      c = 12288 \<or> c = 65279)"

definition isDigit :: "nat \<Rightarrow> bool" where
  "isDigit c = (48 \<le> c \<and> c \<le> 57)"

definition digitsValue :: "nat list \<Rightarrow> nat" where
  "digitsValue Z = foldl (\<lambda>acc c. 10 * acc + (c - 48)) 0 Z"

text \<open>
  \<open>Number.parseInt(string, 10)\<close>: strip leading white space, read an optional sign,
  take the longest prefix of decimal digits; no digit gives NaN (\<open>None\<close>). The result
  is the exact integer (\<open>-0\<close> is \<open>0\<close>); the code only compares it with \<open>0\<close> and
  with an array length and uses it when it is below that length, where the double is exact.
\<close>

definition parseInt :: "js_string \<Rightarrow> int option" where
  "parseInt inputString =
     (let S = dropWhile isStrWhiteSpaceChar inputString;
          sign = (if S \<noteq> [] \<and> hd S = 45 then - 1 else 1);
          S' = (if S \<noteq> [] \<and> (hd S = 43 \<or> hd S = 45) then tl S else S);
          Z = takeWhile isDigit S'
      in if Z = [] then None else Some (sign * int (digitsValue Z)))"

text \<open>\<open>String(n)\<close> for an integer \<open>n\<close> (decimal notation, as for every \<open>|n| < 10^21\<close>).\<close>

fun digitsOf :: "nat \<Rightarrow> nat list" where
  "digitsOf n = (if n < 10 then [48 + n] else digitsOf (n div 10) @ [48 + n mod 10])"

declare digitsOf.simps [simp del]

definition js_String :: "int \<Rightarrow> js_string" where
  "js_String n = (if n < 0 then 45 # digitsOf (nat (- n)) else digitsOf (nat n))"

text \<open>
  \<open>Array.prototype.slice(start, end)\<close> with integer arguments: a negative index counts
  from the end, both indices are clamped to the array, an empty range gives an empty array.
\<close>

definition slice :: "'a list \<Rightarrow> int \<Rightarrow> int \<Rightarrow> 'a list" where
  "slice xs start end =
     (let len = int (length xs);
          k = (if start < 0 then max (len + start) 0 else min start len);
          final = (if end < 0 then max (len + end) 0 else min end len)
      in take (nat (final - k)) (drop (nat k) xs))"

definition DEFAULT_PAGE_SIZE :: int where
  "DEFAULT_PAGE_SIZE = 20"

section \<open>The generic paginator (\<open>paginate\<close>, utils/pagination.ts)\<close>

record PaginationOptions =
  pageSize :: "int option"
  pageToken :: "js_string option"

record 'a PaginationResult =
  items :: "'a list"
  nextPageToken :: "js_string option"
  previousPageToken :: "js_string option"
  startIndex :: int
  endIndex :: int
  invalidToken :: bool

definition noPaginationOptions :: "PaginationOptions \<Rightarrow> bool" where
  "noPaginationOptions options =
     (PaginationOptions.pageSize options = None \<and> PaginationOptions.pageToken options = None)"

text \<open>
  \<open>resolveStartIndex\<close> as written next to \<open>paginate\<close> and, with the same text, next
  to the unfiltered \<open>paginateNetworkRequests\<close>: a token that is present but unusable is
  always reported.
\<close>

definition resolveStartIndex :: "js_string option \<Rightarrow> int \<Rightarrow> int \<times> bool" where
  "resolveStartIndex token total' =
     (case token of
        None \<Rightarrow> (0, False)
      | Some tok \<Rightarrow>
          (case parseInt tok of
             None \<Rightarrow> (0, True)
           | Some parsed \<Rightarrow>
               if parsed < 0 \<or> parsed \<ge> total' then (0, True) else (parsed, False)))"

text \<open>The page size \<open>paginate\<close> works with: \<open>options.pageSize ?? DEFAULT_PAGE_SIZE\<close>.\<close>

definition paginate_pageSize :: "PaginationOptions \<Rightarrow> int" where
  "paginate_pageSize options =
     (case PaginationOptions.pageSize options of None \<Rightarrow> DEFAULT_PAGE_SIZE | Some s \<Rightarrow> s)"

definition paginate :: "'a list \<Rightarrow> PaginationOptions option \<Rightarrow> 'a PaginationResult" where
  "paginate itemsIn options =
     (let total = int (length itemsIn);
          whole = \<lparr>items = itemsIn, nextPageToken = None, previousPageToken = None,
                   startIndex = 0, endIndex = total, invalidToken = False\<rparr>
      in case options of
           None \<Rightarrow> whole
         | Some opts \<Rightarrow>
             if noPaginationOptions opts then whole
             else
               (let pageSize = paginate_pageSize opts;
                    (startIndex, invalidToken) =
                       resolveStartIndex (PaginationOptions.pageToken opts) total;
                    pageItems = slice itemsIn startIndex (startIndex + pageSize);
                    endIndex = startIndex + int (length pageItems);
                    nextPageToken = (if endIndex < total then Some (js_String endIndex) else None);
                    previousPageToken =
                      (if startIndex > 0 then Some (js_String (max (startIndex - pageSize) 0))
                       else None)
                in \<lparr>items = pageItems, nextPageToken = nextPageToken,
                     previousPageToken = previousPageToken, startIndex = startIndex,
                     endIndex = endIndex, invalidToken = invalidToken\<rparr>))"

section \<open>The unfiltered request paginator (first \<open>paginateNetworkRequests\<close>)\<close>

record HTTPRequest =
  url :: string
  resourceType :: string

record NetworkPaginationOptions =
  pageSize :: "number option"
  pageToken :: "js_string option"

record NetworkPaginationResult =
  requests :: "HTTPRequest list"
  nextPageToken :: "js_string option"
  previousPageToken :: "js_string option"
  startIndex :: int
  endIndex :: int
  invalidToken :: bool

definition noPaginationOptions_requests :: "NetworkPaginationOptions \<Rightarrow> bool" where
  "noPaginationOptions_requests options =
     (NetworkPaginationOptions.pageSize options = None \<and>
      NetworkPaginationOptions.pageToken options = None)"

text \<open>
  \<open>validatePageSize\<close>, the same text in both request paginators. \<open>total || 20\<close> is
  \<open>20\<close> exactly when \<open>total\<close> is \<open>0\<close>.
\<close>

definition validatePageSize :: "number option \<Rightarrow> int \<Rightarrow> int" where
  "validatePageSize pageSize' total' =
     (case pageSize' of
        None \<Rightarrow> (if total' \<noteq> 0 then total' else DEFAULT_PAGE_SIZE)
      | Some NonIntegral \<Rightarrow> DEFAULT_PAGE_SIZE
      | Some (Integral n) \<Rightarrow>
          if n \<le> 0 then DEFAULT_PAGE_SIZE else min n (max total' 1))"

definition paginateNetworkRequests_unfiltered ::
  "HTTPRequest list \<Rightarrow> NetworkPaginationOptions option \<Rightarrow> NetworkPaginationResult" where
  "paginateNetworkRequests_unfiltered requestsIn options =
     (let total = int (length requestsIn);
          whole = \<lparr>requests = requestsIn, nextPageToken = None, previousPageToken = None,
                   startIndex = 0, endIndex = total, invalidToken = False\<rparr>
      in case options of
           None \<Rightarrow> whole
         | Some opts \<Rightarrow>
             if noPaginationOptions_requests opts then whole
             else
               (let pageSize = validatePageSize (NetworkPaginationOptions.pageSize opts) total;
                    (startIndex, invalidToken) =
                       resolveStartIndex (NetworkPaginationOptions.pageToken opts) total;
                    pageRequests = slice requestsIn startIndex (startIndex + pageSize);
                    endIndex = startIndex + int (length pageRequests);
                    nextPageToken = (if endIndex < total then Some (js_String endIndex) else None);
                    previousPageToken =
                      (if startIndex > 0 then Some (js_String (max (startIndex - pageSize) 0))
                       else None)
                in \<lparr>requests = pageRequests, nextPageToken = nextPageToken,
                     previousPageToken = previousPageToken, startIndex = startIndex,
                     endIndex = endIndex, invalidToken = invalidToken\<rparr>))"

section \<open>Filtering and the listing (second \<open>paginateNetworkRequests\<close>)\<close>

definition FILTERABLE_RESOURCE_TYPES :: "string list" where
  "FILTERABLE_RESOURCE_TYPES =
     [''document'', ''stylesheet'', ''image'', ''media'', ''font'', ''script'', ''xhr'',
      ''fetch'', ''prefetch'', ''websocket'', ''preflight'', ''other'']"


definition isFilterableResourceType :: "string \<Rightarrow> bool" where
  "isFilterableResourceType v = (v \<in> set FILTERABLE_RESOURCE_TYPES)"

text \<open>
  A requested type is one name or an array of names; \<open>None\<close> stands for \<open>undefined\<close>
  and \<open>null\<close>, which the code treats alike everywhere.
\<close>

datatype requestTypeSpec = Single string | Many "string list"

fun requestedValues :: "requestTypeSpec \<Rightarrow> string list" where
  "requestedValues (Many vs) = vs"
| "requestedValues (Single v) = [v]"

definition sanitizeRequestTypeFilter :: "requestTypeSpec option \<Rightarrow> requestTypeSpec option" where
  "sanitizeRequestTypeFilter spec =
     (case spec of
        None \<Rightarrow> None
      | Some rt \<Rightarrow>
          (let values = requestedValues rt;
               sanitized = filter isFilterableResourceType values
           in if length sanitized = 0 then None
              else (case rt of Many _ \<Rightarrow> Some (Many sanitized)
                             | Single _ \<Rightarrow> Some (Single (hd sanitized)))))"

text \<open>
  JavaScript truthiness of a requested type (\<open>!requestType\<close> is its negation):
  \<open>undefined\<close>, \<open>null\<close> and the empty string are falsy, every array is truthy.
\<close>

fun truthy :: "requestTypeSpec option \<Rightarrow> bool" where
  "truthy None = False"
| "truthy (Some (Single v)) = (v \<noteq> [])"
| "truthy (Some (Many vs)) = True"

definition filterNetworkRequests ::
  "HTTPRequest list \<Rightarrow> requestTypeSpec option \<Rightarrow> HTTPRequest list" where
  "filterNetworkRequests requestsIn spec =
     (if \<not> truthy spec then requestsIn
      else
        (let normalizedTypes = set (requestedValues (the spec))
         in if card normalizedTypes = 0 then requestsIn
            else filter (\<lambda>request.
                   let type = resourceType request
                   in if \<not> isFilterableResourceType type then False
                      else type \<in> normalizedTypes) requestsIn))"

record NetworkRequestsListingOptions =
  pageSize :: "number option"
  pageToken :: "js_string option"
  requestType :: "requestTypeSpec option"

record NetworkRequestsListingResult =
  requests :: "HTTPRequest list"
  nextPageToken :: "js_string option"
  previousPageToken :: "js_string option"
  startIndex :: int
  endIndex :: int
  invalidToken :: bool
  total :: int
  appliedRequestType :: "requestTypeSpec option"

definition hasPagination :: "NetworkRequestsListingOptions \<Rightarrow> bool" where
  "hasPagination options =
     (NetworkRequestsListingOptions.pageSize options \<noteq> None \<or>
      NetworkRequestsListingOptions.pageToken options \<noteq> None)"

text \<open>
  \<open>resolveStartIndex\<close> as written next to the listing: an unusable token is reported
  only when the collection is not empty.
\<close>

definition resolveStartIndex_listing :: "js_string option \<Rightarrow> int \<Rightarrow> int \<times> bool" where
  "resolveStartIndex_listing token total' =
     (case token of
        None \<Rightarrow> (0, False)
      | Some tok \<Rightarrow>
          (case parseInt tok of
             None \<Rightarrow> (0, total' > 0)
           | Some parsed \<Rightarrow>
               if parsed < 0 \<or> parsed \<ge> total' then (0, total' > 0) else (parsed, False)))"

text \<open>\<open>options ?? {}\<close>: absent options are an options object with no field set.\<close>

definition sanitizedOptions :: "NetworkRequestsListingOptions option \<Rightarrow> NetworkRequestsListingOptions" where
  "sanitizedOptions options =
     (case options of
        None \<Rightarrow> \<lparr>pageSize = None, pageToken = None, requestType = None\<rparr>
      | Some opts \<Rightarrow> opts)"

definition paginateNetworkRequests ::
  "HTTPRequest list \<Rightarrow> NetworkRequestsListingOptions option \<Rightarrow> NetworkRequestsListingResult" where
  "paginateNetworkRequests requestsIn options =
     (let opts = sanitizedOptions options;
          filteredRequests = filterNetworkRequests requestsIn (requestType opts);
          total = int (length filteredRequests)
      in if \<not> hasPagination opts then
           \<lparr>requests = filteredRequests, nextPageToken = None, previousPageToken = None,
            startIndex = 0, endIndex = total, invalidToken = False, total = total,
            appliedRequestType = requestType opts\<rparr>
         else
           (let pageSize = validatePageSize (NetworkRequestsListingOptions.pageSize opts) total;
                (startIndex, invalidToken) =
                   resolveStartIndex_listing (NetworkRequestsListingOptions.pageToken opts) total;
                pageRequests = slice filteredRequests startIndex (startIndex + pageSize);
                endIndex = startIndex + int (length pageRequests);
                nextPageToken = (if endIndex < total then Some (js_String endIndex) else None);
                previousPageToken =
                  (if startIndex > 0 then Some (js_String (max (startIndex - pageSize) 0))
                   else None)
            in \<lparr>requests = pageRequests, nextPageToken = nextPageToken,
                 previousPageToken = previousPageToken, startIndex = startIndex,
                 endIndex = endIndex, invalidToken = invalidToken, total = total,
                 appliedRequestType = requestType opts\<rparr>))"

section \<open>Following the next-page tokens\<close>

text \<open>
  The caller's loop: call with a fixed page size, collect the page, call again with the
  returned \<open>nextPageToken\<close>, stop when there is none. \<open>None\<close> is a loop that never
  stops.
\<close>

partial_function (option) followNext ::
  "'a list \<Rightarrow> int \<Rightarrow> js_string option \<Rightarrow> 'a list list option" where
  "followNext itemsIn n tok =
     (let r = paginate itemsIn (Some \<lparr>PaginationOptions.pageSize = Some n, PaginationOptions.pageToken = tok\<rparr>)
      in case PaginationResult.nextPageToken r of
           None \<Rightarrow> Some [items r]
         | Some t \<Rightarrow>
             Option.bind (followNext itemsIn n (Some t)) (\<lambda>rest. Some (items r # rest)))"

partial_function (option) followNext_listing ::
  "HTTPRequest list \<Rightarrow> int \<Rightarrow> requestTypeSpec option \<Rightarrow> js_string option
     \<Rightarrow> HTTPRequest list list option" where
  "followNext_listing requestsIn n rt tok =
     (let r = paginateNetworkRequests requestsIn
                (Some \<lparr>pageSize = Some (Integral n), pageToken = tok, requestType = rt\<rparr>)
      in case NetworkRequestsListingResult.nextPageToken r of
           None \<Rightarrow> Some [NetworkRequestsListingResult.requests r]
         | Some t \<Rightarrow>
             Option.bind (followNext_listing requestsIn n rt (Some t))
               (\<lambda>rest. Some (NetworkRequestsListingResult.requests r # rest)))"

section \<open>Basic facts about slices, start offsets and the two paths\<close>

lemma slice_within:
  "0 \<le> s \<Longrightarrow> s \<le> int (length xs) \<Longrightarrow> s + int (length (slice xs s e)) \<le> int (length xs)"
  by (auto simp: slice_def Let_def)

lemma slice_take_drop:
  "0 \<le> s \<Longrightarrow> 0 \<le> p \<Longrightarrow> slice xs s (s + p) = take (nat p) (drop (nat s) xs)"
proof -
  assume s: "0 \<le> s" and p: "0 \<le> p"
  let ?len = "int (length xs)"
  show ?thesis
  proof (cases "s \<le> ?len")
    case True
    have "nat (min (s + p) ?len - s) = min (nat p) (length xs - nat s)"
      using s p True by (simp add: min_def) linarith
    then show ?thesis using s p True by (simp add: slice_def Let_def min_def)
  next
    case False
    then show ?thesis using s p by (simp add: slice_def Let_def min_def)
  qed
qed

lemma resolveStartIndex_cases:
  "0 \<le> n \<Longrightarrow> 0 \<le> fst (resolveStartIndex tok n) \<and> fst (resolveStartIndex tok n) \<le> n"
  by (auto simp: resolveStartIndex_def split: option.splits if_splits)

lemma resolveStartIndex_listing_cases:
  "0 \<le> n \<Longrightarrow>
   0 \<le> fst (resolveStartIndex_listing tok n) \<and> fst (resolveStartIndex_listing tok n) \<le> n"
  by (auto simp: resolveStartIndex_listing_def split: option.splits if_splits)

lemma validatePageSize_pos: "0 \<le> n \<Longrightarrow> 0 < validatePageSize ps n"
  by (auto simp: validatePageSize_def DEFAULT_PAGE_SIZE_def split: option.splits number.splits)

lemma paginate_paged:
  "\<not> noPaginationOptions opts \<Longrightarrow>
   paginate xs (Some opts) =
     (let s = fst (resolveStartIndex (PaginationOptions.pageToken opts) (int (length xs)));
          page = slice xs s (s + paginate_pageSize opts);
          e = s + int (length page)
      in \<lparr>items = page,
          nextPageToken = (if e < int (length xs) then Some (js_String e) else None),
          previousPageToken =
            (if s > 0 then Some (js_String (max (s - paginate_pageSize opts) 0)) else None),
          startIndex = s, endIndex = e,
          invalidToken =
            snd (resolveStartIndex (PaginationOptions.pageToken opts) (int (length xs)))\<rparr>)"
  by (simp add: paginate_def Let_def case_prod_beta)

lemma paginate_whole:
  "options = None \<or> (\<exists>opts. options = Some opts \<and> noPaginationOptions opts) \<Longrightarrow>
   paginate xs options =
     \<lparr>items = xs, nextPageToken = None, previousPageToken = None,
      startIndex = 0, endIndex = int (length xs), invalidToken = False\<rparr>"
  by (auto simp: paginate_def Let_def)

lemma unfiltered_paged:
  "\<not> noPaginationOptions_requests opts \<Longrightarrow>
   paginateNetworkRequests_unfiltered xs (Some opts) =
     (let n = int (length xs);
          ps = validatePageSize (NetworkPaginationOptions.pageSize opts) n;
          s = fst (resolveStartIndex (NetworkPaginationOptions.pageToken opts) n);
          page = slice xs s (s + ps);
          e = s + int (length page)
      in \<lparr>NetworkPaginationResult.requests = page,
          nextPageToken = (if e < n then Some (js_String e) else None),
          previousPageToken = (if s > 0 then Some (js_String (max (s - ps) 0)) else None),
          startIndex = s, endIndex = e,
          invalidToken = snd (resolveStartIndex (NetworkPaginationOptions.pageToken opts) n)\<rparr>)"
  by (simp add: paginateNetworkRequests_unfiltered_def Let_def case_prod_beta)

lemma unfiltered_whole:
  "options = None \<or> (\<exists>opts. options = Some opts \<and> noPaginationOptions_requests opts) \<Longrightarrow>
   paginateNetworkRequests_unfiltered xs options =
     \<lparr>NetworkPaginationResult.requests = xs, nextPageToken = None, previousPageToken = None,
      startIndex = 0, endIndex = int (length xs), invalidToken = False\<rparr>"
  by (auto simp: paginateNetworkRequests_unfiltered_def Let_def)

lemma listing_paged:
  "hasPagination (sanitizedOptions options) \<Longrightarrow>
   paginateNetworkRequests xs options =
     (let opts = sanitizedOptions options;
          fs = filterNetworkRequests xs (requestType opts);
          n = int (length fs);
          ps = validatePageSize (NetworkRequestsListingOptions.pageSize opts) n;
          s = fst (resolveStartIndex_listing (NetworkRequestsListingOptions.pageToken opts) n);
          page = slice fs s (s + ps);
          e = s + int (length page)
      in \<lparr>requests = page,
          nextPageToken = (if e < n then Some (js_String e) else None),
          previousPageToken = (if s > 0 then Some (js_String (max (s - ps) 0)) else None),
          startIndex = s, endIndex = e,
          invalidToken =
            snd (resolveStartIndex_listing (NetworkRequestsListingOptions.pageToken opts) n),
          total = n, appliedRequestType = requestType opts\<rparr>)"
  by (simp add: paginateNetworkRequests_def Let_def case_prod_beta)

lemma listing_whole:
  "\<not> hasPagination (sanitizedOptions options) \<Longrightarrow>
   paginateNetworkRequests xs options =
     (let fs = filterNetworkRequests xs (requestType (sanitizedOptions options))
      in \<lparr>requests = fs, nextPageToken = None, previousPageToken = None,
          startIndex = 0, endIndex = int (length fs), invalidToken = False,
          total = int (length fs),
          appliedRequestType = requestType (sanitizedOptions options)\<rparr>)"
  by (simp add: paginateNetworkRequests_def Let_def)

section \<open>Reading back a rendered number\<close>

lemma digitsOf_digits: "\<forall>c \<in> set (digitsOf n). isDigit c"
proof (induction n rule: digitsOf.induct)
  case (1 n)
  show ?case
  proof (cases "n < 10")
    case True
    then show ?thesis by (subst digitsOf.simps) (simp add: isDigit_def)
  next
    case False
    have "n mod 10 < 10" by simp
    then have "isDigit (48 + n mod 10)" unfolding isDigit_def by linarith
    with False 1 show ?thesis by (subst digitsOf.simps) simp
  qed
qed

lemma digitsOf_nonempty: "digitsOf n \<noteq> []"
  by (subst digitsOf.simps) simp

lemma digitsValue_snoc: "digitsValue (Z @ [c]) = 10 * digitsValue Z + (c - 48)"
  by (simp add: digitsValue_def)

lemma digitsValue_digitsOf: "digitsValue (digitsOf n) = n"
proof (induction n rule: digitsOf.induct)
  case (1 n)
  show ?case
  proof (cases "n < 10")
    case True
    then show ?thesis by (subst digitsOf.simps) (simp add: digitsValue_def)
  next
    case False
    with 1 have "digitsValue (digitsOf (n div 10)) = n div 10" by simp
    with False show ?thesis
      by (subst digitsOf.simps) (simp add: digitsValue_snoc)
  qed
qed

lemma digit_not_space: "isDigit c \<Longrightarrow> \<not> isStrWhiteSpaceChar c"
  by (auto simp: isDigit_def isStrWhiteSpaceChar_def)

lemma parseInt_digits:
  assumes "Z \<noteq> []" and "\<forall>c \<in> set Z. isDigit c"
  shows "parseInt Z = Some (int (digitsValue Z))"
proof -
  from assms obtain c cs where Z: "Z = c # cs" by (cases Z) auto
  with assms have c: "isDigit c" by simp
  then have "\<not> isStrWhiteSpaceChar c" by (rule digit_not_space)
  then have 1: "dropWhile isStrWhiteSpaceChar Z = Z" using Z by simp
  from c have 2: "c \<noteq> 45" "c \<noteq> 43" by (auto simp: isDigit_def)
  from assms have 3: "takeWhile isDigit Z = Z" by (simp add: takeWhile_eq_all_conv)
  show ?thesis using 1 2 3 Z by (simp add: parseInt_def Let_def)
qed

lemma parseInt_js_String: "0 \<le> n \<Longrightarrow> parseInt (js_String n) = Some n"
  using parseInt_digits[OF digitsOf_nonempty digitsOf_digits, of "nat n"]
  by (simp add: js_String_def digitsValue_digitsOf)

text \<open>
  White space, then the digits of a number, then a tail that does not start with a digit:
  \<open>parseInt\<close> reads the number.
\<close>

lemma parseInt_numeric_prefix:
  assumes ws: "\<forall>c \<in> set ws. isStrWhiteSpaceChar c"
    and rest: "rest = [] \<or> \<not> isDigit (hd rest)"
  shows "parseInt (ws @ digitsOf n @ rest) = Some (int n)"
proof -
  obtain d ds where d: "digitsOf n = d # ds"
    using digitsOf_nonempty[of n] by (cases "digitsOf n") auto
  have dig: "\<forall>c \<in> set (digitsOf n). isDigit c" by (rule digitsOf_digits)
  then have dd: "isDigit d" using d by simp
  then have nws: "\<not> isStrWhiteSpaceChar d" by (rule digit_not_space)
  have 1: "dropWhile isStrWhiteSpaceChar (ws @ digitsOf n @ rest) = digitsOf n @ rest"
    using ws nws d by (simp add: dropWhile_append2)
  from dd have 2: "d \<noteq> 45" "d \<noteq> 43" by (auto simp: isDigit_def)
  have "takeWhile isDigit rest = []" using rest by (cases rest) auto
  then have 3: "takeWhile isDigit (digitsOf n @ rest) = digitsOf n"
    using dig by (simp add: takeWhile_append2)
  show ?thesis
    using 1 2 3 d digitsValue_digitsOf[of n] by (simp add: parseInt_def Let_def)
qed

section \<open>Token resolution\<close>

text \<open>
  C10. On the paginated path, a page token whose numeric prefix \<open>parseInt\<close> reads as
  \<open>p\<close> with \<open>0 \<le> p < total\<close> is accepted by all three paginators: the result starts
  at \<open>p\<close> and \<open>invalidToken\<close> is false. Nothing else about the token matters, so
  trailing characters after the digits and leading white space are tolerated; for the
  listing, \<open>total\<close> is the number of requests left by the filter.
\<close>

theorem numeric_prefix_token_accepted:
  assumes "parseInt tok = Some p" and "0 \<le> p"
  shows "(p < int (length xs) \<longrightarrow>
           PaginationResult.startIndex
             (paginate xs (Some \<lparr>PaginationOptions.pageSize = ps,
                                  PaginationOptions.pageToken = Some tok\<rparr>)) = p \<and>
           \<not> PaginationResult.invalidToken
             (paginate xs (Some \<lparr>PaginationOptions.pageSize = ps,
                                  PaginationOptions.pageToken = Some tok\<rparr>))) \<and>
         (p < int (length rs) \<longrightarrow>
           NetworkPaginationResult.startIndex
             (paginateNetworkRequests_unfiltered rs
                (Some \<lparr>NetworkPaginationOptions.pageSize = qs,
                        NetworkPaginationOptions.pageToken = Some tok\<rparr>)) = p \<and>
           \<not> NetworkPaginationResult.invalidToken
             (paginateNetworkRequests_unfiltered rs
                (Some \<lparr>NetworkPaginationOptions.pageSize = qs,
                        NetworkPaginationOptions.pageToken = Some tok\<rparr>))) \<and>
         (p < int (length (filterNetworkRequests rs rt)) \<longrightarrow>
           startIndex (paginateNetworkRequests rs
                (Some \<lparr>pageSize = qs, pageToken = Some tok, requestType = rt\<rparr>)) = p \<and>
           \<not> invalidToken (paginateNetworkRequests rs
                (Some \<lparr>pageSize = qs, pageToken = Some tok, requestType = rt\<rparr>)))"
  using assms
  by (simp add: paginate_paged unfiltered_paged listing_paged noPaginationOptions_def
      noPaginationOptions_requests_def hasPagination_def sanitizedOptions_def Let_def
      resolveStartIndex_def resolveStartIndex_listing_def)

theorem numeric_prefix_token_accepted_witness:
  "parseInt (js '' 10abc'') = Some 10 \<and>
   PaginationResult.startIndex
     (paginate (replicate 25 CHR ''x'')
        (Some \<lparr>PaginationOptions.pageSize = Some 10,
                PaginationOptions.pageToken = Some (js '' 10abc'')\<rparr>)) = 10 \<and>
   \<not> NetworkPaginationResult.invalidToken
     (paginateNetworkRequests_unfiltered
        (replicate 12 \<lparr>url = ''u'', resourceType = ''image''\<rparr>)
        (Some \<lparr>NetworkPaginationOptions.pageSize = None,
                NetworkPaginationOptions.pageToken = Some (js '' 10abc'')\<rparr>)) \<and>
   startIndex
     (paginateNetworkRequests (replicate 12 \<lparr>url = ''u'', resourceType = ''image''\<rparr>)
        (Some \<lparr>pageSize = None, pageToken = Some (js '' 10abc''), requestType = None\<rparr>)) = 10"
proof -
  have h: "parseInt (js '' 10abc'') = Some 10"
    by (simp add: parseInt_def js_def isStrWhiteSpaceChar_def isDigit_def digitsValue_def)
  have f: "filterNetworkRequests (replicate 12 \<lparr>url = ''u'', resourceType = ''image''\<rparr>) None
             = replicate 12 \<lparr>url = ''u'', resourceType = ''image''\<rparr>"
    by (simp add: filterNetworkRequests_def)
  show ?thesis
    using h f
      numeric_prefix_token_accepted [OF h, of "replicate 25 CHR ''x''" "Some 10"
        "replicate 12 \<lparr>url = ''u'', resourceType = ''image''\<rparr>" None None]
    by simp
qed

text \<open>
  C1 (as the code has it). A present token that \<open>parseInt\<close> cannot read, or reads as a
  negative number or as a number at or beyond \<open>total\<close>, sends every paginator back to
  \<open>startIndex = 0\<close>. The generic \<open>paginate\<close> and the unfiltered request paginator then
  always set \<open>invalidToken\<close>, also for an empty collection; the listing sets it exactly
  when the filtered collection is not empty.
\<close>

theorem unusable_token_falls_back_to_first_page:
  "((case parseInt tok of None \<Rightarrow> True | Some p \<Rightarrow> p < 0 \<or> int (length xs) \<le> p) \<longrightarrow>
      PaginationResult.startIndex
        (paginate xs (Some \<lparr>PaginationOptions.pageSize = ps,
                             PaginationOptions.pageToken = Some tok\<rparr>)) = 0 \<and>
      PaginationResult.invalidToken
        (paginate xs (Some \<lparr>PaginationOptions.pageSize = ps,
                             PaginationOptions.pageToken = Some tok\<rparr>))) \<and>
   ((case parseInt tok of None \<Rightarrow> True | Some p \<Rightarrow> p < 0 \<or> int (length rs) \<le> p) \<longrightarrow>
      NetworkPaginationResult.startIndex
        (paginateNetworkRequests_unfiltered rs
           (Some \<lparr>NetworkPaginationOptions.pageSize = qs,
                   NetworkPaginationOptions.pageToken = Some tok\<rparr>)) = 0 \<and>
      NetworkPaginationResult.invalidToken
        (paginateNetworkRequests_unfiltered rs
           (Some \<lparr>NetworkPaginationOptions.pageSize = qs,
                   NetworkPaginationOptions.pageToken = Some tok\<rparr>))) \<and>
   ((case parseInt tok of None \<Rightarrow> True
     | Some p \<Rightarrow> p < 0 \<or> int (length (filterNetworkRequests rs rt)) \<le> p) \<longrightarrow>
      startIndex (paginateNetworkRequests rs
           (Some \<lparr>pageSize = qs, pageToken = Some tok, requestType = rt\<rparr>)) = 0 \<and>
      invalidToken (paginateNetworkRequests rs
           (Some \<lparr>pageSize = qs, pageToken = Some tok, requestType = rt\<rparr>))
        = (filterNetworkRequests rs rt \<noteq> []))"
  by (auto simp: paginate_paged unfiltered_paged listing_paged noPaginationOptions_def
      noPaginationOptions_requests_def hasPagination_def sanitizedOptions_def Let_def
      resolveStartIndex_def resolveStartIndex_listing_def split: option.splits)


theorem unusable_token_falls_back_to_first_page_witness:
  "parseInt (js ''invalid'') = None \<and>
   PaginationResult.invalidToken
     (paginate ''abcde''
        (Some \<lparr>PaginationOptions.pageSize = Some 2,
                PaginationOptions.pageToken = Some (js ''invalid'')\<rparr>)) \<and>
   NetworkPaginationResult.invalidToken
     (paginateNetworkRequests_unfiltered [\<lparr>url = ''u'', resourceType = ''image''\<rparr>]
        (Some \<lparr>NetworkPaginationOptions.pageSize = Some (Integral 2),
                NetworkPaginationOptions.pageToken = Some (js ''invalid'')\<rparr>)) \<and>
   invalidToken
     (paginateNetworkRequests [\<lparr>url = ''u'', resourceType = ''image''\<rparr>]
        (Some \<lparr>pageSize = Some (Integral 2), pageToken = Some (js ''invalid''),
                requestType = None\<rparr>))"
proof -
  have h: "parseInt (js ''invalid'') = None"
    by (simp add: parseInt_def js_def isStrWhiteSpaceChar_def isDigit_def)
  have f: "filterNetworkRequests [\<lparr>url = ''u'', resourceType = ''image''\<rparr>] None
             = [\<lparr>url = ''u'', resourceType = ''image''\<rparr>]"
    by (simp add: filterNetworkRequests_def)
  show ?thesis
    using h f
      unusable_token_falls_back_to_first_page [where tok = "js ''invalid''" and xs = "''abcde''"
        and ps = "Some 2" and qs = "Some (Integral 2)"
        and rs = "[\<lparr>url = ''u'', resourceType = ''image''\<rparr>]" and rt = None]
    by simp
qed


text \<open>
  Against C1 as stated: the listing called on an empty collection with the token \<open>7\<close>.
  The token is out of range, the result starts at \<open>0\<close>, and \<open>invalidToken\<close>
  stays false.
\<close>

theorem listing_ignores_unusable_token_on_empty_collection:
  "parseInt (js ''7'') = Some 7 \<and>
   total (paginateNetworkRequests []
     (Some \<lparr>pageSize = None, pageToken = Some (js ''7''), requestType = None\<rparr>)) = 0 \<and>
   startIndex (paginateNetworkRequests []
     (Some \<lparr>pageSize = None, pageToken = Some (js ''7''), requestType = None\<rparr>)) = 0 \<and>
   \<not> invalidToken (paginateNetworkRequests []
     (Some \<lparr>pageSize = None, pageToken = Some (js ''7''), requestType = None\<rparr>))"
  by (simp add: listing_paged hasPagination_def sanitizedOptions_def Let_def
      resolveStartIndex_listing_def filterNetworkRequests_def
      parseInt_def js_def isStrWhiteSpaceChar_def isDigit_def digitsValue_def)


section \<open>Invariants of every result\<close>

lemma invariants_paginate:
  "0 \<le> PaginationResult.startIndex (paginate xs options) \<and>
   PaginationResult.startIndex (paginate xs options)
     \<le> PaginationResult.endIndex (paginate xs options) \<and>
   PaginationResult.endIndex (paginate xs options) \<le> int (length xs) \<and>
   int (length (items (paginate xs options))) =
     PaginationResult.endIndex (paginate xs options)
       - PaginationResult.startIndex (paginate xs options) \<and>
   (PaginationResult.nextPageToken (paginate xs options) \<noteq> None) =
     (PaginationResult.endIndex (paginate xs options) < int (length xs)) \<and>
   (PaginationResult.previousPageToken (paginate xs options) \<noteq> None) =
     (0 < PaginationResult.startIndex (paginate xs options))"
proof (cases "options = None \<or> (\<exists>opts. options = Some opts \<and> noPaginationOptions opts)")
  case True
  then show ?thesis by (simp add: paginate_whole)
next
  case False
  then obtain opts where o: "options = Some opts" "\<not> noPaginationOptions opts" by auto
  let ?s = "fst (resolveStartIndex (PaginationOptions.pageToken opts) (int (length xs)))"
  have s: "0 \<le> ?s" "?s \<le> int (length xs)"
    using resolveStartIndex_cases[of "int (length xs)"] by simp_all
  from slice_within[OF s] show ?thesis
    using s by (simp add: o paginate_paged Let_def)
qed

lemma invariants_unfiltered:
  "0 \<le> NetworkPaginationResult.startIndex (paginateNetworkRequests_unfiltered rs options) \<and>
   NetworkPaginationResult.startIndex (paginateNetworkRequests_unfiltered rs options)
     \<le> NetworkPaginationResult.endIndex (paginateNetworkRequests_unfiltered rs options) \<and>
   NetworkPaginationResult.endIndex (paginateNetworkRequests_unfiltered rs options)
     \<le> int (length rs) \<and>
   int (length (NetworkPaginationResult.requests (paginateNetworkRequests_unfiltered rs options))) =
     NetworkPaginationResult.endIndex (paginateNetworkRequests_unfiltered rs options)
       - NetworkPaginationResult.startIndex (paginateNetworkRequests_unfiltered rs options) \<and>
   (NetworkPaginationResult.nextPageToken (paginateNetworkRequests_unfiltered rs options) \<noteq> None) =
     (NetworkPaginationResult.endIndex (paginateNetworkRequests_unfiltered rs options)
        < int (length rs)) \<and>
   (NetworkPaginationResult.previousPageToken (paginateNetworkRequests_unfiltered rs options)
      \<noteq> None) =
     (0 < NetworkPaginationResult.startIndex (paginateNetworkRequests_unfiltered rs options))"
proof (cases "options = None \<or> (\<exists>opts. options = Some opts \<and> noPaginationOptions_requests opts)")
  case True
  then show ?thesis by (simp add: unfiltered_whole)
next
  case False
  then obtain opts where o: "options = Some opts" "\<not> noPaginationOptions_requests opts" by auto
  let ?s = "fst (resolveStartIndex (NetworkPaginationOptions.pageToken opts) (int (length rs)))"
  have s: "0 \<le> ?s" "?s \<le> int (length rs)"
    using resolveStartIndex_cases[of "int (length rs)"] by simp_all
  from slice_within[OF s] show ?thesis
    using s by (simp add: o unfiltered_paged Let_def)
qed

lemma invariants_listing:
  "0 \<le> startIndex (paginateNetworkRequests rs options) \<and>
   startIndex (paginateNetworkRequests rs options) \<le> endIndex (paginateNetworkRequests rs options) \<and>
   endIndex (paginateNetworkRequests rs options) \<le> total (paginateNetworkRequests rs options) \<and>
   int (length (requests (paginateNetworkRequests rs options))) =
     endIndex (paginateNetworkRequests rs options) - startIndex (paginateNetworkRequests rs options) \<and>
   (nextPageToken (paginateNetworkRequests rs options) \<noteq> None) =
     (endIndex (paginateNetworkRequests rs options) < total (paginateNetworkRequests rs options)) \<and>
   (previousPageToken (paginateNetworkRequests rs options) \<noteq> None) =
     (0 < startIndex (paginateNetworkRequests rs options))"
proof (cases "hasPagination (sanitizedOptions options)")
  case False
  then show ?thesis by (simp add: listing_whole Let_def)
next
  case True
  let ?fs = "filterNetworkRequests rs (requestType (sanitizedOptions options))"
  let ?s = "fst (resolveStartIndex_listing
              (NetworkRequestsListingOptions.pageToken (sanitizedOptions options))
              (int (length ?fs)))"
  have s: "0 \<le> ?s" "?s \<le> int (length ?fs)"
    using resolveStartIndex_listing_cases[of "int (length ?fs)"] by simp_all
  from slice_within[OF s] show ?thesis
    using s by (simp add: listing_paged[OF True] Let_def)
qed


text \<open>
  C2. For every collection and every options value, each of the three paginators returns
  a result with \<open>0 \<le> startIndex \<le> endIndex \<le> total\<close>, a page of
  \<open>endIndex - startIndex\<close> entries, a next token exactly when \<open>endIndex < total\<close> and a
  previous token exactly when \<open>startIndex > 0\<close>. For \<open>paginate\<close> and the unfiltered
  paginator \<open>total\<close> is the length of the input, for the listing it is the \<open>total\<close>
  field of the result.
\<close>

theorem result_invariants:
  "(0 \<le> PaginationResult.startIndex (paginate xs options) \<and>
    PaginationResult.startIndex (paginate xs options)
      \<le> PaginationResult.endIndex (paginate xs options) \<and>
    PaginationResult.endIndex (paginate xs options) \<le> int (length xs) \<and>
    int (length (items (paginate xs options))) =
      PaginationResult.endIndex (paginate xs options)
        - PaginationResult.startIndex (paginate xs options) \<and>
    (PaginationResult.nextPageToken (paginate xs options) \<noteq> None) =
      (PaginationResult.endIndex (paginate xs options) < int (length xs)) \<and>
    (PaginationResult.previousPageToken (paginate xs options) \<noteq> None) =
      (0 < PaginationResult.startIndex (paginate xs options))) \<and>
   (0 \<le> NetworkPaginationResult.startIndex (paginateNetworkRequests_unfiltered rs uoptions) \<and>
    NetworkPaginationResult.startIndex (paginateNetworkRequests_unfiltered rs uoptions)
      \<le> NetworkPaginationResult.endIndex (paginateNetworkRequests_unfiltered rs uoptions) \<and>
    NetworkPaginationResult.endIndex (paginateNetworkRequests_unfiltered rs uoptions)
      \<le> int (length rs) \<and>
    int (length (NetworkPaginationResult.requests
                   (paginateNetworkRequests_unfiltered rs uoptions))) =
      NetworkPaginationResult.endIndex (paginateNetworkRequests_unfiltered rs uoptions)
        - NetworkPaginationResult.startIndex (paginateNetworkRequests_unfiltered rs uoptions) \<and>
    (NetworkPaginationResult.nextPageToken (paginateNetworkRequests_unfiltered rs uoptions)
       \<noteq> None) =
      (NetworkPaginationResult.endIndex (paginateNetworkRequests_unfiltered rs uoptions)
         < int (length rs)) \<and>
    (NetworkPaginationResult.previousPageToken (paginateNetworkRequests_unfiltered rs uoptions)
       \<noteq> None) =
      (0 < NetworkPaginationResult.startIndex (paginateNetworkRequests_unfiltered rs uoptions))) \<and>
   (0 \<le> startIndex (paginateNetworkRequests rs loptions) \<and>
    startIndex (paginateNetworkRequests rs loptions)
      \<le> endIndex (paginateNetworkRequests rs loptions) \<and>
    endIndex (paginateNetworkRequests rs loptions)
      \<le> total (paginateNetworkRequests rs loptions) \<and>
    int (length (requests (paginateNetworkRequests rs loptions))) =
      endIndex (paginateNetworkRequests rs loptions)
        - startIndex (paginateNetworkRequests rs loptions) \<and>
    (nextPageToken (paginateNetworkRequests rs loptions) \<noteq> None) =
      (endIndex (paginateNetworkRequests rs loptions)
         < total (paginateNetworkRequests rs loptions)) \<and>
    (previousPageToken (paginateNetworkRequests rs loptions) \<noteq> None) =
      (0 < startIndex (paginateNetworkRequests rs loptions)))"
  by (rule conjI[OF invariants_paginate conjI[OF invariants_unfiltered invariants_listing]])

section \<open>The listing works on the filtered view\<close>

lemma slice_is_window:
  assumes "0 \<le> s" and "0 \<le> p"
  shows "slice xs s (s + p) = take (length (slice xs s (s + p))) (drop (nat s) xs)"
proof -
  have "take (nat p) ys = take (length (take (nat p) ys)) ys" for ys :: "'a list"
    by (cases "nat p \<le> length ys") (simp_all add: min_def)
  then show ?thesis by (simp only: slice_take_drop[OF assms])
qed


text \<open>
  C4. The listing filters first and paginates the outcome: the \<open>total\<close> of the result is
  the number of requests that pass the filter, \<open>startIndex\<close> and \<open>endIndex\<close> lie in
  \<open>[0, total]\<close> of that filtered sequence, and the page is its window
  \<open>[startIndex, endIndex)\<close>.
\<close>

theorem listing_paginates_filtered_view:
  "total (paginateNetworkRequests rs options)
     = int (length (filterNetworkRequests rs (requestType (sanitizedOptions options)))) \<and>
   0 \<le> startIndex (paginateNetworkRequests rs options) \<and>
   startIndex (paginateNetworkRequests rs options) \<le> endIndex (paginateNetworkRequests rs options) \<and>
   endIndex (paginateNetworkRequests rs options)
     \<le> int (length (filterNetworkRequests rs (requestType (sanitizedOptions options)))) \<and>
   requests (paginateNetworkRequests rs options)
     = take (nat (endIndex (paginateNetworkRequests rs options)
                   - startIndex (paginateNetworkRequests rs options)))
         (drop (nat (startIndex (paginateNetworkRequests rs options)))
            (filterNetworkRequests rs (requestType (sanitizedOptions options))))"
proof (cases "hasPagination (sanitizedOptions options)")
  case False
  then show ?thesis by (simp add: listing_whole Let_def)
next
  case True
  let ?opts = "sanitizedOptions options"
  let ?fs = "filterNetworkRequests rs (requestType ?opts)"
  let ?n = "int (length ?fs)"
  let ?ps = "validatePageSize (NetworkRequestsListingOptions.pageSize ?opts) ?n"
  let ?s = "fst (resolveStartIndex_listing (NetworkRequestsListingOptions.pageToken ?opts) ?n)"
  have s: "0 \<le> ?s" "?s \<le> ?n"
    using resolveStartIndex_listing_cases[of ?n] by simp_all
  have ps: "0 \<le> ?ps" using validatePageSize_pos[of ?n] by (simp add: less_imp_le)
  have page: "slice ?fs ?s (?s + ?ps)
                = take (length (slice ?fs ?s (?s + ?ps))) (drop (nat ?s) ?fs)"
    by (rule slice_is_window[OF s(1) ps])
  show ?thesis
    using s slice_within[OF s, of "?s + ?ps"] page
    by (simp add: listing_paged[OF True] Let_def)
qed

section \<open>The filter\<close>

text \<open>
  C5. An absent requested type (\<open>undefined\<close>, \<open>null\<close>, or the empty string, which the
  code's falsiness test treats alike) and an empty array leave the requests unchanged. Any
  other requested type keeps exactly the requests whose resource type is in the allow-list
  and among the requested names, in their original order; the outcome is always a
  subsequence of the input, and a request whose resource type is outside the allow-list
  is never kept by such a filter.
\<close>

theorem filter_keeps_requested_recognized_types:
  "filterNetworkRequests rs None = rs \<and>
   filterNetworkRequests rs (Some (Single [])) = rs \<and>
   filterNetworkRequests rs (Some (Many [])) = rs \<and>
   (v \<noteq> [] \<longrightarrow>
      filterNetworkRequests rs (Some (Single v)) =
        filter (\<lambda>r. resourceType r \<in> set FILTERABLE_RESOURCE_TYPES \<and> resourceType r = v) rs) \<and>
   (vs \<noteq> [] \<longrightarrow>
      filterNetworkRequests rs (Some (Many vs)) =
        filter (\<lambda>r. resourceType r \<in> set FILTERABLE_RESOURCE_TYPES \<and> resourceType r \<in> set vs) rs) \<and>
   subseq (filterNetworkRequests rs spec) rs \<and>
   (spec \<noteq> None \<and> spec \<noteq> Some (Single []) \<and> spec \<noteq> Some (Many []) \<and>
    resourceType r \<notin> set FILTERABLE_RESOURCE_TYPES
      \<longrightarrow> r \<notin> set (filterNetworkRequests rs spec))"
proof -
  have sub: "subseq (filterNetworkRequests rs spec) rs"
    by (simp add: filterNetworkRequests_def Let_def)
  have non: "r \<notin> set (filterNetworkRequests rs spec)"
    if "spec \<noteq> None" "spec \<noteq> Some (Single [])" "spec \<noteq> Some (Many [])"
       "resourceType r \<notin> set FILTERABLE_RESOURCE_TYPES"
  proof -
    from that(1) obtain sp where sp: "spec = Some sp" by auto
    show ?thesis
      using that sp
      by (cases sp) (auto simp: filterNetworkRequests_def Let_def isFilterableResourceType_def)
  qed
  have single: "filterNetworkRequests rs (Some (Single v)) =
        filter (\<lambda>r. resourceType r \<in> set FILTERABLE_RESOURCE_TYPES \<and> resourceType r = v) rs"
    if "v \<noteq> []"
    using that
    by (simp add: filterNetworkRequests_def Let_def isFilterableResourceType_def cong: conj_cong)
  have many: "filterNetworkRequests rs (Some (Many vs)) =
        filter (\<lambda>r. resourceType r \<in> set FILTERABLE_RESOURCE_TYPES \<and> resourceType r \<in> set vs) rs"
    if "vs \<noteq> []"
    using that
    by (simp add: filterNetworkRequests_def Let_def isFilterableResourceType_def cong: conj_cong)
  have none: "filterNetworkRequests rs None = rs"
    "filterNetworkRequests rs (Some (Single [])) = rs"
    "filterNetworkRequests rs (Some (Many [])) = rs"
    by (simp_all add: filterNetworkRequests_def)
  show ?thesis using sub non single many none by blast
qed

theorem filter_keeps_requested_recognized_types_witness:
  "filterNetworkRequests
     [\<lparr>url = ''d'', resourceType = ''document''\<rparr>, \<lparr>url = ''i'', resourceType = ''image''\<rparr>,
      \<lparr>url = ''t'', resourceType = ''texttrack''\<rparr>, \<lparr>url = ''s'', resourceType = ''script''\<rparr>]
     (Some (Many [''script'', ''texttrack'', ''image'']))
   = [\<lparr>url = ''i'', resourceType = ''image''\<rparr>, \<lparr>url = ''s'', resourceType = ''script''\<rparr>] \<and>
   filterNetworkRequests
     [\<lparr>url = ''d'', resourceType = ''document''\<rparr>, \<lparr>url = ''i'', resourceType = ''image''\<rparr>,
      \<lparr>url = ''t'', resourceType = ''texttrack''\<rparr>, \<lparr>url = ''s'', resourceType = ''script''\<rparr>]
     (Some (Single ''image''))
   = [\<lparr>url = ''i'', resourceType = ''image''\<rparr>] \<and>
   \<lparr>url = ''t'', resourceType = ''texttrack''\<rparr> \<notin> set (filterNetworkRequests
     [\<lparr>url = ''d'', resourceType = ''document''\<rparr>, \<lparr>url = ''i'', resourceType = ''image''\<rparr>,
      \<lparr>url = ''t'', resourceType = ''texttrack''\<rparr>, \<lparr>url = ''s'', resourceType = ''script''\<rparr>]
     (Some (Many [''script'', ''texttrack'', ''image''])))"
  using filter_keeps_requested_recognized_types
    [where rs = "[\<lparr>url = ''d'', resourceType = ''document''\<rparr>, \<lparr>url = ''i'', resourceType = ''image''\<rparr>,
      \<lparr>url = ''t'', resourceType = ''texttrack''\<rparr>, \<lparr>url = ''s'', resourceType = ''script''\<rparr>]"
     and v = "''image''" and vs = "[''script'', ''texttrack'', ''image'']"
     and spec = "Some (Many [''script'', ''texttrack'', ''image''])"
     and r = "\<lparr>url = ''t'', resourceType = ''texttrack''\<rparr>"]
  by (simp add: FILTERABLE_RESOURCE_TYPES_def)

section \<open>The echoed request type\<close>

lemma listing_echo:
  "appliedRequestType (paginateNetworkRequests rs options) = requestType (sanitizedOptions options)"
  by (cases "hasPagination (sanitizedOptions options)")
     (simp_all add: listing_paged listing_whole Let_def)

lemma sanitize_in_type:
  assumes "case spec of None \<Rightarrow> True
           | Some sp \<Rightarrow> set (requestedValues sp) \<subseteq> set FILTERABLE_RESOURCE_TYPES"
    and "spec \<noteq> Some (Many [])"
  shows "sanitizeRequestTypeFilter spec = spec"
proof (cases spec)
  case None
  then show ?thesis by (simp add: sanitizeRequestTypeFilter_def)
next
  case (Some sp)
  show ?thesis
  proof (cases sp)
    case (Single v)
    with Some assms(1) show ?thesis
      by (simp add: sanitizeRequestTypeFilter_def isFilterableResourceType_def)
  next
    case (Many vs)
    with Some assms have all: "\<forall>x \<in> set vs. isFilterableResourceType x" and ne: "vs \<noteq> []"
      by (auto simp: isFilterableResourceType_def)
    from all have "filter isFilterableResourceType vs = vs" by (simp add: filter_id_conv)
    with ne Some Many show ?thesis by (simp add: sanitizeRequestTypeFilter_def)
  qed
qed

text \<open>
  C6 (as the code has it). For a requested type of the declared type (absent, one allow-list
  name, or an array of allow-list names) the listing's \<open>appliedRequestType\<close> is the
  sanitized specification, with one exception: an empty array is echoed as an empty array,
  not as absent. The listing echoes the option as it received it; values outside the
  allow-list are dropped by \<open>sanitizeRequestTypeFilter\<close>, which keeps the allow-list
  names in order and gives nothing when none is left, and a call that passes the
  sanitizer's output echoes exactly that output.
\<close>

theorem listing_echoes_sanitized_request_type:
  "((case spec of None \<Rightarrow> True
     | Some sp \<Rightarrow> set (requestedValues sp) \<subseteq> set FILTERABLE_RESOURCE_TYPES) \<and>
    spec \<noteq> Some (Many []) \<longrightarrow>
      appliedRequestType (paginateNetworkRequests rs
         (Some \<lparr>pageSize = ps, pageToken = tok, requestType = spec\<rparr>))
        = sanitizeRequestTypeFilter spec) \<and>
   appliedRequestType (paginateNetworkRequests rs
      (Some \<lparr>pageSize = ps, pageToken = tok, requestType = Some (Many [])\<rparr>))
     = Some (Many []) \<and>
   appliedRequestType (paginateNetworkRequests rs None) = None \<and>
   appliedRequestType (paginateNetworkRequests rs
      (Some \<lparr>pageSize = ps, pageToken = tok, requestType = sanitizeRequestTypeFilter raw\<rparr>))
     = sanitizeRequestTypeFilter raw \<and>
   appliedRequestType (paginateNetworkRequests rs options) = requestType (sanitizedOptions options) \<and>
   sanitizeRequestTypeFilter None = None \<and>
   sanitizeRequestTypeFilter (Some (Single v)) =
     (if v \<in> set FILTERABLE_RESOURCE_TYPES then Some (Single v) else None) \<and>
   sanitizeRequestTypeFilter (Some (Many vs)) =
     (if filter (\<lambda>x. x \<in> set FILTERABLE_RESOURCE_TYPES) vs = [] then None
      else Some (Many (filter (\<lambda>x. x \<in> set FILTERABLE_RESOURCE_TYPES) vs)))"
proof -
  have isf: "isFilterableResourceType = (\<lambda>x. x \<in> set FILTERABLE_RESOURCE_TYPES)"
    by (simp add: isFilterableResourceType_def fun_eq_iff)
  have san: "sanitizeRequestTypeFilter None = None"
    "sanitizeRequestTypeFilter (Some (Single v)) =
       (if v \<in> set FILTERABLE_RESOURCE_TYPES then Some (Single v) else None)"
    "sanitizeRequestTypeFilter (Some (Many vs)) =
       (if filter (\<lambda>x. x \<in> set FILTERABLE_RESOURCE_TYPES) vs = [] then None
        else Some (Many (filter (\<lambda>x. x \<in> set FILTERABLE_RESOURCE_TYPES) vs)))"
    by (simp_all add: sanitizeRequestTypeFilter_def Let_def isf)
  have typed: "appliedRequestType (paginateNetworkRequests rs
         (Some \<lparr>pageSize = ps, pageToken = tok, requestType = spec\<rparr>))
        = sanitizeRequestTypeFilter spec"
    if "case spec of None \<Rightarrow> True
        | Some sp \<Rightarrow> set (requestedValues sp) \<subseteq> set FILTERABLE_RESOURCE_TYPES"
      and "spec \<noteq> Some (Many [])"
    using sanitize_in_type[OF that] by (simp add: listing_echo sanitizedOptions_def)
  have rest: "appliedRequestType (paginateNetworkRequests rs
      (Some \<lparr>pageSize = ps, pageToken = tok, requestType = Some (Many [])\<rparr>)) = Some (Many [])"
    "appliedRequestType (paginateNetworkRequests rs None) = None"
    "appliedRequestType (paginateNetworkRequests rs
      (Some \<lparr>pageSize = ps, pageToken = tok, requestType = sanitizeRequestTypeFilter raw\<rparr>))
     = sanitizeRequestTypeFilter raw"
    by (simp_all add: listing_echo sanitizedOptions_def)
  show ?thesis using san typed rest listing_echo[of rs options] by blast
qed

theorem listing_echoes_sanitized_request_type_witness:
  "set (requestedValues (Many [''image'', ''script''])) \<subseteq> set FILTERABLE_RESOURCE_TYPES \<and>
   appliedRequestType (paginateNetworkRequests []
      (Some \<lparr>pageSize = None, pageToken = None,
              requestType = Some (Many [''image'', ''script''])\<rparr>))
     = Some (Many [''image'', ''script'']) \<and>
   sanitizeRequestTypeFilter (Some (Many [''image'', ''script''])) = Some (Many [''image'', ''script''])"
proof -
  have t: "set (requestedValues (Many [''image'', ''script''])) \<subseteq> set FILTERABLE_RESOURCE_TYPES"
    by (simp add: FILTERABLE_RESOURCE_TYPES_def)
  have s: "sanitizeRequestTypeFilter (Some (Many [''image'', ''script'']))
             = Some (Many [''image'', ''script''])"
    by (simp add: sanitizeRequestTypeFilter_def isFilterableResourceType_def
        FILTERABLE_RESOURCE_TYPES_def)
  from listing_echoes_sanitized_request_type
         [where spec = "Some (Many [''image'', ''script''])" and rs = "[]" and ps = None
            and tok = None and raw = None and options = None and v = "''image''"
            and vs = "[]"]
  have "appliedRequestType (paginateNetworkRequests []
      (Some \<lparr>pageSize = None, pageToken = None,
              requestType = Some (Many [''image'', ''script''])\<rparr>))
     = sanitizeRequestTypeFilter (Some (Many [''image'', ''script'']))"
    using t by simp
  then show ?thesis using t s by simp
qed

text \<open>
  Against C6 as stated: the listing called with an empty array, a value of the declared
  type. No filter is applied and the sanitized specification is absent, yet the echo is
  the empty array.
\<close>

theorem listing_echoes_empty_array:
  "filterNetworkRequests [\<lparr>url = ''d'', resourceType = ''document''\<rparr>] (Some (Many []))
     = [\<lparr>url = ''d'', resourceType = ''document''\<rparr>] \<and>
   appliedRequestType (paginateNetworkRequests [\<lparr>url = ''d'', resourceType = ''document''\<rparr>]
     (Some \<lparr>pageSize = None, pageToken = None, requestType = Some (Many [])\<rparr>))
     = Some (Many []) \<and>
   sanitizeRequestTypeFilter (Some (Many [])) = None"
  by (simp add: listing_whole hasPagination_def sanitizedOptions_def Let_def
      sanitizeRequestTypeFilter_def filterNetworkRequests_def)

section \<open>Page tokens\<close>

text \<open>
  C7. On the paginated path of each paginator, \<open>nextPageToken\<close> is the rendering of
  \<open>endIndex\<close> when \<open>endIndex < total\<close> and absent otherwise, and
  \<open>previousPageToken\<close> is the rendering of \<open>max (startIndex - pageSize) 0\<close> when
  \<open>startIndex > 0\<close> and absent otherwise, where \<open>pageSize\<close> is the page size resolved
  from the options of this very call. For \<open>paginate\<close>, whose page size is not
  validated, the previous token is stated where \<open>startIndex - pageSize\<close> is at most
  \<open>2^53\<close>: there the code's subtraction on doubles and its \<open>String\<close> are the exact
  integer subtraction and its decimal notation. The validated page sizes of the two request
  paginators are always in that range.
\<close>

theorem page_tokens_are_rendered_offsets:
  "(\<not> noPaginationOptions opts \<longrightarrow>
      PaginationResult.nextPageToken (paginate xs (Some opts)) =
        (if PaginationResult.endIndex (paginate xs (Some opts)) < int (length xs)
         then Some (js_String (PaginationResult.endIndex (paginate xs (Some opts)))) else None)) \<and>
   (\<not> noPaginationOptions opts \<and>
    PaginationResult.startIndex (paginate xs (Some opts)) - paginate_pageSize opts \<le> 2 ^ 53 \<longrightarrow>
      PaginationResult.previousPageToken (paginate xs (Some opts)) =
        (if 0 < PaginationResult.startIndex (paginate xs (Some opts))
         then Some (js_String (max (PaginationResult.startIndex (paginate xs (Some opts))
                                     - paginate_pageSize opts) 0))
         else None)) \<and>
   (\<not> noPaginationOptions_requests uopts \<longrightarrow>
      NetworkPaginationResult.nextPageToken (paginateNetworkRequests_unfiltered rs (Some uopts)) =
        (if NetworkPaginationResult.endIndex (paginateNetworkRequests_unfiltered rs (Some uopts))
              < int (length rs)
         then Some (js_String (NetworkPaginationResult.endIndex
                                 (paginateNetworkRequests_unfiltered rs (Some uopts))))
         else None) \<and>
      NetworkPaginationResult.previousPageToken (paginateNetworkRequests_unfiltered rs (Some uopts)) =
        (if 0 < NetworkPaginationResult.startIndex (paginateNetworkRequests_unfiltered rs (Some uopts))
         then Some (js_String (max (NetworkPaginationResult.startIndex
                                      (paginateNetworkRequests_unfiltered rs (Some uopts))
                                     - validatePageSize (NetworkPaginationOptions.pageSize uopts)
                                         (int (length rs))) 0))
         else None)) \<and>
   (hasPagination lopts \<longrightarrow>
      nextPageToken (paginateNetworkRequests rs (Some lopts)) =
        (if endIndex (paginateNetworkRequests rs (Some lopts))
              < total (paginateNetworkRequests rs (Some lopts))
         then Some (js_String (endIndex (paginateNetworkRequests rs (Some lopts)))) else None) \<and>
      previousPageToken (paginateNetworkRequests rs (Some lopts)) =
        (if 0 < startIndex (paginateNetworkRequests rs (Some lopts))
         then Some (js_String (max (startIndex (paginateNetworkRequests rs (Some lopts))
                                     - validatePageSize (pageSize lopts)
                                         (total (paginateNetworkRequests rs (Some lopts)))) 0))
         else None))"
  by (simp add: paginate_paged unfiltered_paged listing_paged sanitizedOptions_def Let_def)

theorem page_tokens_are_rendered_offsets_witness:
  "\<not> noPaginationOptions
       \<lparr>PaginationOptions.pageSize = Some 10, PaginationOptions.pageToken = Some (js ''10'')\<rparr> \<and>
   PaginationResult.startIndex (paginate (replicate 25 CHR ''x'')
       (Some \<lparr>PaginationOptions.pageSize = Some 10,
               PaginationOptions.pageToken = Some (js ''10'')\<rparr>))
     - paginate_pageSize
         \<lparr>PaginationOptions.pageSize = Some 10, PaginationOptions.pageToken = Some (js ''10'')\<rparr>
     \<le> 2 ^ 53 \<and>
   PaginationResult.nextPageToken (paginate (replicate 25 CHR ''x'')
       (Some \<lparr>PaginationOptions.pageSize = Some 10,
               PaginationOptions.pageToken = Some (js ''10'')\<rparr>)) = Some (js ''20'') \<and>
   PaginationResult.previousPageToken (paginate (replicate 25 CHR ''x'')
       (Some \<lparr>PaginationOptions.pageSize = Some 10,
               PaginationOptions.pageToken = Some (js ''10'')\<rparr>)) = Some (js ''0'') \<and>
   \<not> noPaginationOptions_requests
       \<lparr>NetworkPaginationOptions.pageSize = Some (Integral 10),
        NetworkPaginationOptions.pageToken = Some (js ''10'')\<rparr> \<and>
   NetworkPaginationResult.previousPageToken
     (paginateNetworkRequests_unfiltered (replicate 25 \<lparr>url = ''u'', resourceType = ''image''\<rparr>)
       (Some \<lparr>NetworkPaginationOptions.pageSize = Some (Integral 10),
               NetworkPaginationOptions.pageToken = Some (js ''10'')\<rparr>)) = Some (js ''0'') \<and>
   hasPagination \<lparr>pageSize = Some (Integral 10), pageToken = Some (js ''10''), requestType = None\<rparr> \<and>
   nextPageToken
     (paginateNetworkRequests (replicate 25 \<lparr>url = ''u'', resourceType = ''image''\<rparr>)
       (Some \<lparr>pageSize = Some (Integral 10), pageToken = Some (js ''10''),
               requestType = None\<rparr>)) = Some (js ''20'')"
proof -
  let ?o1 = "\<lparr>PaginationOptions.pageSize = Some 10, PaginationOptions.pageToken = Some (js ''10'')\<rparr>"
  let ?o2 = "\<lparr>NetworkPaginationOptions.pageSize = Some (Integral 10),
              NetworkPaginationOptions.pageToken = Some (js ''10'')\<rparr>"
  let ?o3 = "\<lparr>pageSize = Some (Integral 10), pageToken = Some (js ''10''), requestType = None\<rparr>"
  let ?rs = "replicate 25 \<lparr>url = ''u'', resourceType = ''image''\<rparr>"
  have h: "parseInt (js ''10'') = Some 10"
    by (simp add: parseInt_def js_def isStrWhiteSpaceChar_def isDigit_def digitsValue_def)
  have s20: "js_String 20 = js ''20''" and s0: "js_String 0 = js ''0''"
    by (simp_all add: js_String_def js_def digitsOf.simps)
  have v: "validatePageSize (Some (Integral 10)) 25 = 10"
    by (simp add: validatePageSize_def)
  have p: "paginate_pageSize ?o1 = 10"
    by (simp add: paginate_pageSize_def)
  have f: "filterNetworkRequests ?rs None = ?rs"
    by (simp add: filterNetworkRequests_def)
  have r: "resolveStartIndex (Some (js ''10'')) 25 = (10, False)"
    "resolveStartIndex_listing (Some (js ''10'')) 25 = (10, False)"
    by (simp_all add: resolveStartIndex_def resolveStartIndex_listing_def h)
  have sl: "length (slice (replicate 25 x) 10 20) = 10" for x :: 'b
    by (simp add: slice_def)
  have n1: "\<not> noPaginationOptions ?o1" by (simp add: noPaginationOptions_def)
  have n2: "\<not> noPaginationOptions_requests ?o2" by (simp add: noPaginationOptions_requests_def)
  have n3: "hasPagination ?o3" by (simp add: hasPagination_def)
  have e1: "PaginationResult.endIndex (paginate (replicate 25 CHR ''x'') (Some ?o1)) = 20"
    and b1: "PaginationResult.startIndex (paginate (replicate 25 CHR ''x'') (Some ?o1)) = 10"
    by (simp_all add: paginate_paged[OF n1] Let_def r p sl)
  have b2: "NetworkPaginationResult.startIndex (paginateNetworkRequests_unfiltered ?rs (Some ?o2)) = 10"
    by (simp add: unfiltered_paged[OF n2] Let_def r)
  have n3': "hasPagination (sanitizedOptions (Some ?o3))" using n3 by (simp add: sanitizedOptions_def)
  have e3: "endIndex (paginateNetworkRequests ?rs (Some ?o3)) = 20"
    and t3: "total (paginateNetworkRequests ?rs (Some ?o3)) = 25"
    by (simp_all add: listing_paged[OF n3'] sanitizedOptions_def Let_def r v f sl)
  have bound: "(10::int) - 10 \<le> 2 ^ 53" by simp
  from page_tokens_are_rendered_offsets [where opts = ?o1 and xs = "replicate 25 CHR ''x''"
         and uopts = ?o2 and rs = ?rs and lopts = ?o3]
  show ?thesis
    unfolding e1 b1 b2 e3 t3 p
    using n1 n2 n3 bound by (simp add: v s20 s0)
qed

section \<open>The effective page size\<close>

lemma unfiltered_page:
  assumes "\<not> noPaginationOptions_requests uopts"
  shows "NetworkPaginationResult.requests (paginateNetworkRequests_unfiltered rs (Some uopts)) =
           take (nat (validatePageSize (NetworkPaginationOptions.pageSize uopts) (int (length rs))))
             (drop (nat (NetworkPaginationResult.startIndex
                           (paginateNetworkRequests_unfiltered rs (Some uopts)))) rs)"
proof -
  let ?n = "int (length rs)"
  have "0 \<le> fst (resolveStartIndex (NetworkPaginationOptions.pageToken uopts) ?n)"
    using resolveStartIndex_cases[of ?n] by simp
  moreover have "0 \<le> validatePageSize (NetworkPaginationOptions.pageSize uopts) ?n"
    using validatePageSize_pos[of ?n] by (simp add: less_imp_le)
  ultimately show ?thesis
    by (simp add: unfiltered_paged[OF assms] Let_def slice_take_drop)
qed

lemma listing_page:
  assumes "hasPagination lopts"
  shows "requests (paginateNetworkRequests rs (Some lopts)) =
           take (nat (validatePageSize (pageSize lopts) (total (paginateNetworkRequests rs (Some lopts)))))
             (drop (nat (startIndex (paginateNetworkRequests rs (Some lopts))))
                (filterNetworkRequests rs (requestType lopts)))"
proof -
  let ?n = "int (length (filterNetworkRequests rs (requestType lopts)))"
  have h: "hasPagination (sanitizedOptions (Some lopts))"
    using assms by (simp add: sanitizedOptions_def)
  have "0 \<le> fst (resolveStartIndex_listing (pageToken lopts) ?n)"
    using resolveStartIndex_listing_cases[of ?n] by simp
  moreover have "0 \<le> validatePageSize (pageSize lopts) ?n"
    using validatePageSize_pos[of ?n] by (simp add: less_imp_le)
  ultimately show ?thesis
    by (simp add: listing_paged[OF h] sanitizedOptions_def Let_def slice_take_drop)
qed

lemma paginate_page:
  assumes "\<not> noPaginationOptions opts" and "0 \<le> paginate_pageSize opts"
  shows "items (paginate xs (Some opts)) =
           take (nat (paginate_pageSize opts))
             (drop (nat (PaginationResult.startIndex (paginate xs (Some opts)))) xs)"
proof -
  have "0 \<le> fst (resolveStartIndex (PaginationOptions.pageToken opts) (int (length xs)))"
    using resolveStartIndex_cases[of "int (length xs)"] by simp
  then show ?thesis
    using assms(2) by (simp add: paginate_paged[OF assms(1)] Let_def slice_take_drop)
qed

text \<open>
  C3 (as the code has it). In both request paginators the effective page size is
  \<open>validatePageSize\<close>: \<open>total\<close> when no size is given and the collection is not empty,
  \<open>20\<close> when no size is given and the collection is empty or when the given size is not
  a positive integer, and otherwise \<open>min pageSize (max total 1)\<close>; it is never below
  \<open>1\<close>, and the page is the window of that size starting at \<open>startIndex\<close>, so it
  never exceeds the collection. The generic \<open>paginate\<close> does not validate: its page size
  is the given size, or \<open>20\<close> when none is given, and for a non-negative size the page is
  the window of that size clipped to the collection.
\<close>

theorem effective_page_size:
  "validatePageSize None (int (length rs)) = (if 0 < length rs then int (length rs) else 20) \<and>
   validatePageSize (Some NonIntegral) (int (length rs)) = 20 \<and>
   (k \<le> 0 \<longrightarrow> validatePageSize (Some (Integral k)) (int (length rs)) = 20) \<and>
   (0 < m \<longrightarrow> validatePageSize (Some (Integral m)) (int (length rs))
                  = min m (max (int (length rs)) 1)) \<and>
   1 \<le> validatePageSize ps (int (length rs)) \<and>
   (\<not> noPaginationOptions_requests uopts \<longrightarrow>
      NetworkPaginationResult.requests (paginateNetworkRequests_unfiltered rs (Some uopts)) =
        take (nat (validatePageSize (NetworkPaginationOptions.pageSize uopts) (int (length rs))))
          (drop (nat (NetworkPaginationResult.startIndex
                        (paginateNetworkRequests_unfiltered rs (Some uopts)))) rs)) \<and>
   (hasPagination lopts \<longrightarrow>
      requests (paginateNetworkRequests rs (Some lopts)) =
        take (nat (validatePageSize (pageSize lopts)
                     (total (paginateNetworkRequests rs (Some lopts)))))
          (drop (nat (startIndex (paginateNetworkRequests rs (Some lopts))))
             (filterNetworkRequests rs (requestType lopts)))) \<and>
   paginate_pageSize opts =
     (case PaginationOptions.pageSize opts of None \<Rightarrow> 20 | Some j \<Rightarrow> j) \<and>
   (\<not> noPaginationOptions opts \<and> 0 \<le> paginate_pageSize opts \<longrightarrow>
      items (paginate xs (Some opts)) =
        take (nat (paginate_pageSize opts))
          (drop (nat (PaginationResult.startIndex (paginate xs (Some opts)))) xs))"
proof -
  have a: "validatePageSize None (int (length rs)) = (if 0 < length rs then int (length rs) else 20)"
    "validatePageSize (Some NonIntegral) (int (length rs)) = 20"
    "k \<le> 0 \<longrightarrow> validatePageSize (Some (Integral k)) (int (length rs)) = 20"
    "0 < m \<longrightarrow> validatePageSize (Some (Integral m)) (int (length rs))
                  = min m (max (int (length rs)) 1)"
    by (simp_all add: validatePageSize_def DEFAULT_PAGE_SIZE_def)
  have b: "1 \<le> validatePageSize ps (int (length rs))"
    using validatePageSize_pos[of "int (length rs)" ps] by simp
  have c: "paginate_pageSize opts =
     (case PaginationOptions.pageSize opts of None \<Rightarrow> 20 | Some j \<Rightarrow> j)"
    by (simp add: paginate_pageSize_def DEFAULT_PAGE_SIZE_def split: option.splits)
  show ?thesis
    using a b c unfiltered_page[of uopts rs] listing_page[of lopts rs] paginate_page[of opts xs]
    by blast
qed

theorem effective_page_size_witness:
  "validatePageSize (Some (Integral (- 3))) 30 = 20 \<and>
   validatePageSize (Some (Integral 50)) 30 = 30 \<and>
   \<not> noPaginationOptions_requests
       \<lparr>NetworkPaginationOptions.pageSize = Some (Integral 50),
        NetworkPaginationOptions.pageToken = None\<rparr> \<and>
   length (NetworkPaginationResult.requests
     (paginateNetworkRequests_unfiltered (replicate 30 \<lparr>url = ''u'', resourceType = ''image''\<rparr>)
        (Some \<lparr>NetworkPaginationOptions.pageSize = Some (Integral 50),
                NetworkPaginationOptions.pageToken = None\<rparr>))) = 30 \<and>
   hasPagination \<lparr>pageSize = Some (Integral 50), pageToken = None, requestType = None\<rparr> \<and>
   length (requests
     (paginateNetworkRequests (replicate 30 \<lparr>url = ''u'', resourceType = ''image''\<rparr>)
        (Some \<lparr>pageSize = Some (Integral 50), pageToken = None, requestType = None\<rparr>))) = 30 \<and>
   \<not> noPaginationOptions
       \<lparr>PaginationOptions.pageSize = Some 50, PaginationOptions.pageToken = None\<rparr> \<and>
   paginate_pageSize
       \<lparr>PaginationOptions.pageSize = Some 50, PaginationOptions.pageToken = None\<rparr> = 50 \<and>
   length (items (paginate (replicate 30 CHR ''x'')
        (Some \<lparr>PaginationOptions.pageSize = Some 50,
                PaginationOptions.pageToken = None\<rparr>))) = 30"
proof -
  let ?o1 = "\<lparr>PaginationOptions.pageSize = Some 50, PaginationOptions.pageToken = None\<rparr>"
  let ?o2 = "\<lparr>NetworkPaginationOptions.pageSize = Some (Integral 50),
              NetworkPaginationOptions.pageToken = None\<rparr>"
  let ?o3 = "\<lparr>pageSize = Some (Integral 50), pageToken = None, requestType = None\<rparr>"
  let ?rs = "replicate 30 \<lparr>url = ''u'', resourceType = ''image''\<rparr>"
  have n1: "\<not> noPaginationOptions ?o1" by (simp add: noPaginationOptions_def)
  have n2: "\<not> noPaginationOptions_requests ?o2" by (simp add: noPaginationOptions_requests_def)
  have n3: "hasPagination ?o3" by (simp add: hasPagination_def)
  have n3': "hasPagination (sanitizedOptions (Some ?o3))"
    using n3 by (simp add: sanitizedOptions_def)
  have f: "filterNetworkRequests ?rs None = ?rs" by (simp add: filterNetworkRequests_def)
  have r: "resolveStartIndex None 30 = (0, False)" "resolveStartIndex_listing None 30 = (0, False)"
    by (simp_all add: resolveStartIndex_def resolveStartIndex_listing_def)
  have b1: "PaginationResult.startIndex (paginate (replicate 30 CHR ''x'') (Some ?o1)) = 0"
    by (simp add: paginate_paged[OF n1] Let_def r)
  have b2: "NetworkPaginationResult.startIndex (paginateNetworkRequests_unfiltered ?rs (Some ?o2)) = 0"
    by (simp add: unfiltered_paged[OF n2] Let_def r)
  have b3: "startIndex (paginateNetworkRequests ?rs (Some ?o3)) = 0"
    and t3: "total (paginateNetworkRequests ?rs (Some ?o3)) = 30"
    by (simp_all add: listing_paged[OF n3'] sanitizedOptions_def Let_def r f)
  have k: "(- 3::int) \<le> 0" and m: "(0::int) < 50" by simp_all
  from effective_page_size [where k = "- 3" and m = 50 and rs = ?rs and uopts = ?o2
      and lopts = ?o3 and opts = ?o1 and xs = "replicate 30 CHR ''x''" and ps = None]
  show ?thesis
    unfolding b1 b2 b3 t3
    using n1 n2 n3 k m f by simp
qed

text \<open>
  Against C3 as stated: \<open>paginate\<close> on thirty items with a token and no size. The
  page size is \<open>20\<close>, not the thirty items available, and the page has twenty items.
\<close>

theorem paginate_default_size_ignores_total:
  "\<not> noPaginationOptions
       \<lparr>PaginationOptions.pageSize = None, PaginationOptions.pageToken = Some (js ''0'')\<rparr> \<and>
   paginate_pageSize
       \<lparr>PaginationOptions.pageSize = None, PaginationOptions.pageToken = Some (js ''0'')\<rparr> = 20 \<and>
   length (items (paginate (replicate 30 CHR ''x'')
       (Some \<lparr>PaginationOptions.pageSize = None,
               PaginationOptions.pageToken = Some (js ''0'')\<rparr>))) = 20"
proof -
  let ?o = "\<lparr>PaginationOptions.pageSize = None, PaginationOptions.pageToken = Some (js ''0'')\<rparr>"
  have n: "\<not> noPaginationOptions ?o" by (simp add: noPaginationOptions_def)
  have p: "paginate_pageSize ?o = 20" by (simp add: paginate_pageSize_def DEFAULT_PAGE_SIZE_def)
  have h: "parseInt (js ''0'') = Some 0"
    by (simp add: parseInt_def js_def isStrWhiteSpaceChar_def isDigit_def digitsValue_def)
  have r: "resolveStartIndex (Some (js ''0'')) 30 = (0, False)"
    by (simp add: resolveStartIndex_def h)
  have "length (items (paginate (replicate 30 CHR ''x'') (Some ?o))) = 20"
    by (simp add: paginate_paged[OF n] Let_def r p slice_def)
  with n p show ?thesis by simp
qed

section \<open>Following the next-page tokens to the end\<close>

lemma resolveStartIndex_issued:
  "0 \<le> e \<Longrightarrow> e < n \<Longrightarrow> resolveStartIndex (Some (js_String e)) n = (e, False)"
  by (simp add: resolveStartIndex_def parseInt_js_String)

lemma resolveStartIndex_listing_issued:
  "0 \<le> e \<Longrightarrow> e < n \<Longrightarrow> resolveStartIndex_listing (Some (js_String e)) n = (e, False)"
  by (simp add: resolveStartIndex_listing_def parseInt_js_String)

lemma page_step:
  fixes xs :: "'a list"
  assumes n: "0 < n" and s: "0 \<le> s" "s \<le> int (length xs)"
  defines "page \<equiv> slice xs s (s + n)"
  defines "e \<equiv> s + int (length page)"
  shows "e < int (length xs) \<Longrightarrow> s < e \<and> page @ drop (nat e) xs = drop (nat s) xs"
    and "\<not> e < int (length xs) \<Longrightarrow> page = drop (nat s) xs"
proof -
  have page: "page = take (nat n) (drop (nat s) xs)"
    unfolding page_def using n s by (simp add: slice_take_drop)
  then have len: "length page = min (nat n) (length xs - nat s)" by simp
  {
    assume lt: "e < int (length xs)"
    then have full: "length page = nat n" using len s unfolding e_def by linarith
    then have e: "nat e = nat s + nat n" using s n unfolding e_def by simp
    have "take (nat n) (drop (nat s) xs) @ drop (nat n) (drop (nat s) xs) = drop (nat s) xs"
      by (rule append_take_drop_id)
    then have "page @ drop (nat e) xs = drop (nat s) xs"
      by (simp add: page e add.commute)
    moreover have "s < e" using full n unfolding e_def by simp
    ultimately show "s < e \<and> page @ drop (nat e) xs = drop (nat s) xs" by simp
  }
  {
    assume "\<not> e < int (length xs)"
    then have "length xs - nat s \<le> nat n" using len s unfolding e_def by linarith
    then show "page = drop (nat s) xs" by (simp add: page)
  }
qed

lemma followNext_from:
  assumes n: "0 < n"
  shows "\<exists>pages. followNext xs n tok = Some pages \<and>
           concat pages = drop (nat (fst (resolveStartIndex tok (int (length xs))))) xs"
proof (induction "length xs - nat (fst (resolveStartIndex tok (int (length xs))))"
       arbitrary: tok rule: less_induct)
  case less
  let ?total = "int (length xs)"
  let ?s = "fst (resolveStartIndex tok ?total)"
  let ?opts = "\<lparr>PaginationOptions.pageSize = Some n, PaginationOptions.pageToken = tok\<rparr>"
  let ?page = "slice xs ?s (?s + n)"
  let ?e = "?s + int (length ?page)"
  have s: "0 \<le> ?s" "?s \<le> ?total" using resolveStartIndex_cases[of ?total tok] by simp_all
  have np: "\<not> noPaginationOptions ?opts" by (simp add: noPaginationOptions_def)
  have ps: "paginate_pageSize ?opts = n" by (simp add: paginate_pageSize_def)
  have items: "items (paginate xs (Some ?opts)) = ?page"
    by (simp add: paginate_paged[OF np] Let_def ps)
  have nxt: "PaginationResult.nextPageToken (paginate xs (Some ?opts)) =
               (if ?e < ?total then Some (js_String ?e) else None)"
    by (simp add: paginate_paged[OF np] Let_def ps)
  show ?case
  proof (cases "?e < ?total")
    case True
    from page_step(1)[OF n s True] have se: "?s < ?e"
      and cat: "?page @ drop (nat ?e) xs = drop (nat ?s) xs" by simp_all
    have e0: "0 \<le> ?e" using s se by linarith
    have res: "resolveStartIndex (Some (js_String ?e)) ?total = (?e, False)"
      by (rule resolveStartIndex_issued[OF e0 True])
    have "nat ?s < nat ?e" "nat ?e < length xs" using se s True by linarith+
    then have "length xs - nat ?e < length xs - nat ?s" by linarith
    then have "length xs - nat (fst (resolveStartIndex (Some (js_String ?e)) ?total))
            < length xs - nat ?s"
      by (simp only: res fst_conv)
    from less[OF this] obtain rest where
      rest: "followNext xs n (Some (js_String ?e)) = Some rest"
        "concat rest = drop (nat ?e) xs" using res by auto
    have "followNext xs n tok = Some (?page # rest)"
      by (subst followNext.simps) (simp add: Let_def items nxt True rest)
    then show ?thesis using rest cat by simp
  next
    case False
    from page_step(2)[OF n s False] have pg: "?page = drop (nat ?s) xs" .
    have "followNext xs n tok = Some [?page]"
      by (subst followNext.simps) (simp add: Let_def items nxt False)
    then show ?thesis using pg by simp
  qed
qed

lemma followNext_listing_from:
  assumes n: "0 < n"
  shows "\<exists>pages. followNext_listing rs n rt tok = Some pages \<and>
           concat pages =
             drop (nat (fst (resolveStartIndex_listing tok
                               (int (length (filterNetworkRequests rs rt))))))
               (filterNetworkRequests rs rt)"
proof (induction "length (filterNetworkRequests rs rt)
                    - nat (fst (resolveStartIndex_listing tok
                                  (int (length (filterNetworkRequests rs rt)))))"
       arbitrary: tok rule: less_induct)
  case less
  let ?fs = "filterNetworkRequests rs rt"
  let ?total = "int (length ?fs)"
  let ?s = "fst (resolveStartIndex_listing tok ?total)"
  let ?opts = "\<lparr>pageSize = Some (Integral n), pageToken = tok, requestType = rt\<rparr>"
  let ?ps = "validatePageSize (Some (Integral n)) ?total"
  let ?page = "slice ?fs ?s (?s + ?ps)"
  let ?e = "?s + int (length ?page)"
  have s: "0 \<le> ?s" "?s \<le> ?total"
    using resolveStartIndex_listing_cases[of ?total tok] by simp_all
  have ps: "0 < ?ps" using validatePageSize_pos[of ?total] by simp
  have hp: "hasPagination (sanitizedOptions (Some ?opts))"
    by (simp add: hasPagination_def sanitizedOptions_def)
  have reqs: "requests (paginateNetworkRequests rs (Some ?opts)) = ?page"
    by (simp add: listing_paged[OF hp] sanitizedOptions_def Let_def)
  have nxt: "nextPageToken (paginateNetworkRequests rs (Some ?opts)) =
               (if ?e < ?total then Some (js_String ?e) else None)"
    by (simp add: listing_paged[OF hp] sanitizedOptions_def Let_def)
  show ?case
  proof (cases "?e < ?total")
    case True
    from page_step(1)[OF ps s True] have se: "?s < ?e"
      and cat: "?page @ drop (nat ?e) ?fs = drop (nat ?s) ?fs" by simp_all
    have e0: "0 \<le> ?e" using s se by linarith
    have res: "resolveStartIndex_listing (Some (js_String ?e)) ?total = (?e, False)"
      by (rule resolveStartIndex_listing_issued[OF e0 True])
    have "nat ?s < nat ?e" "nat ?e < length ?fs" using se s True by linarith+
    then have "length ?fs - nat ?e < length ?fs - nat ?s" by linarith
    then have "length ?fs - nat (fst (resolveStartIndex_listing (Some (js_String ?e)) ?total))
            < length ?fs - nat ?s"
      by (simp only: res fst_conv)
    from less[OF this] obtain rest where
      rest: "followNext_listing rs n rt (Some (js_String ?e)) = Some rest"
        "concat rest = drop (nat ?e) ?fs" using res by auto
    have "followNext_listing rs n rt tok = Some (?page # rest)"
      by (subst followNext_listing.simps) (simp add: Let_def reqs nxt True rest)
    then show ?thesis using rest cat by simp
  next
    case False
    from page_step(2)[OF ps s False] have pg: "?page = drop (nat ?s) ?fs" .
    have "followNext_listing rs n rt tok = Some [?page]"
      by (subst followNext_listing.simps) (simp add: Let_def reqs nxt False)
    then show ?thesis using pg by simp
  qed
qed

text \<open>
  C8. For every collection and every positive page size, the loop that starts without a
  token and keeps calling with the returned \<open>nextPageToken\<close> stops, and the pages it
  collected, put together in order, are exactly the collection (for the listing: the
  collection left by the filter), so every item is visited once.
\<close>

theorem following_next_tokens_visits_each_item_once:
  "0 < n \<Longrightarrow>
   (\<exists>pages. followNext xs n None = Some pages \<and> concat pages = xs) \<and>
   (\<exists>pages. followNext_listing rs n rt None = Some pages \<and>
             concat pages = filterNetworkRequests rs rt)"
  using followNext_from[of n xs None] followNext_listing_from[of n rs rt None]
  by (simp add: resolveStartIndex_def resolveStartIndex_listing_def)

theorem following_next_tokens_visits_each_item_once_witness:
  "(0::int) < 2 \<and>
   followNext ''abcde'' 2 None = Some [''ab'', ''cd'', ''e''] \<and>
   (\<exists>pages. followNext_listing
       [\<lparr>url = ''a'', resourceType = ''image''\<rparr>, \<lparr>url = ''b'', resourceType = ''font''\<rparr>,
        \<lparr>url = ''c'', resourceType = ''image''\<rparr>] 2 (Some (Single ''image'')) None = Some pages \<and>
      concat pages = [\<lparr>url = ''a'', resourceType = ''image''\<rparr>, \<lparr>url = ''c'', resourceType = ''image''\<rparr>])"
proof -
  have f: "filterNetworkRequests
       [\<lparr>url = ''a'', resourceType = ''image''\<rparr>, \<lparr>url = ''b'', resourceType = ''font''\<rparr>,
        \<lparr>url = ''c'', resourceType = ''image''\<rparr>] (Some (Single ''image''))
     = [\<lparr>url = ''a'', resourceType = ''image''\<rparr>, \<lparr>url = ''c'', resourceType = ''image''\<rparr>]"
    by (simp add: filterNetworkRequests_def isFilterableResourceType_def
        FILTERABLE_RESOURCE_TYPES_def)
  have s2: "js_String 2 = [50]" and s4: "js_String 4 = [52]"
    by (simp_all add: js_String_def digitsOf.simps)
  have p2: "parseInt [50] = Some 2" and p4: "parseInt [52] = Some 4"
    by (simp_all add: parseInt_def isStrWhiteSpaceChar_def isDigit_def digitsValue_def)
  have a: "followNext ''abcde'' 2 (Some [52]) = Some [''e'']"
    by (subst followNext.simps)
       (simp add: paginate_paged noPaginationOptions_def paginate_pageSize_def Let_def
          resolveStartIndex_def p4 slice_def)
  have b: "followNext ''abcde'' 2 (Some [50]) = Some [''cd'', ''e'']"
    by (subst followNext.simps)
       (simp add: paginate_paged noPaginationOptions_def paginate_pageSize_def Let_def
          resolveStartIndex_def p2 slice_def s4 a)
  have run: "followNext ''abcde'' 2 None = Some [''ab'', ''cd'', ''e'']"
    by (subst followNext.simps)
       (simp add: paginate_paged noPaginationOptions_def paginate_pageSize_def Let_def
          resolveStartIndex_def slice_def s2 b)
  have "(0::int) < 2" by simp
  from following_next_tokens_visits_each_item_once[OF this, of "''abcde''"
       "[\<lparr>url = ''a'', resourceType = ''image''\<rparr>, \<lparr>url = ''b'', resourceType = ''font''\<rparr>,
        \<lparr>url = ''c'', resourceType = ''image''\<rparr>]" "Some (Single ''image'')"]
  show ?thesis unfolding f using run by simp
qed

section \<open>The two allow-lists\<close>


end
